theory Spec2Isabelle
  imports Main "HOL-Library.Sublist"
begin

section \<open>HTTP router over a segment trie (program_7.py)\<close>

subsection \<open>Handler values and errors\<close>

text \<open>
  Handlers are opaque Python values. The router never calls them; the only thing it does
  with one is test its truth value (\<^verbatim>\<open>if not handler\<close>). The datatype has \<^verbatim>\<open>None\<close>,
  booleans, integers and strings, whose truth value Python fixes, and any other object (a
  function, a handler instance, a list), given by its identity and the truth value that
  \<^verbatim>\<open>bool()\<close> gives it.
\<close>

datatype pyval = PyNone | PyBool bool | PyInt int | PyStr string | PyObj nat bool

fun truthy :: "pyval \<Rightarrow> bool" where
  "truthy PyNone = False"
| "truthy (PyBool b) = b"
| "truthy (PyInt i) = (i \<noteq> 0)"
| "truthy (PyStr s) = (s \<noteq> [])"
| "truthy (PyObj a b) = b"

datatype error = IndexError

text \<open>Python's \<^verbatim>\<open>xs[i]\<close> for a non-negative literal index: out of range raises.\<close>

definition py_index :: "'a list \<Rightarrow> nat \<Rightarrow> error + 'a" where
  "py_index xs i = (if i < length xs then Inr (xs ! i) else Inl IndexError)"

subsection \<open>RouteTrieNode\<close>

text \<open>
  A node holds its handler, the default handler and the dictionary of its children. The
  dictionary is an association list in insertion order; a key occurs at most once, since
  an entry is only ever added after the test \<^verbatim>\<open>path_word not in self.children\<close>.
\<close>

datatype node =
  RouteTrieNode (handler: pyval) (default_handler: pyval) (children: "(string \<times> node) list")

text \<open>\<^verbatim>\<open>RouteTrieNode.insert(self, path_word, handler)\<close>: add a fresh child unless the key is there.\<close>

definition node_insert :: "node \<Rightarrow> string \<Rightarrow> pyval \<Rightarrow> node" where
  "node_insert self path_word h =
     (if map_of (children self) path_word = None
      then RouteTrieNode (handler self) (default_handler self)
             (children self @ [(path_word, RouteTrieNode h (default_handler self) [])])
      else self)"

subsection \<open>RouteTrie\<close>

record route_trie =
  root :: node

definition RouteTrie :: "pyval \<Rightarrow> pyval \<Rightarrow> route_trie" where
  "RouteTrie h d = \<lparr>root = RouteTrieNode h d []\<rparr>"

text \<open>
  The loop of \<^verbatim>\<open>RouteTrie.insert\<close>, started at a node. Each round makes sure the child for
  \<^verbatim>\<open>path_word\<close> exists (through \<^verbatim>\<open>node.insert(path_word, node.default_handler)\<close>) and moves
  into \<^verbatim>\<open>node.children[path_word]\<close>; after the last round the handler of the node reached is
  assigned. The Python mutates the nodes in place; here the walk returns the rebuilt node,
  with the entry of \<^verbatim>\<open>path_word\<close> replaced by the child after the rest of the walk. The
  entry is there after \<^verbatim>\<open>node_insert\<close> (\<open>insert_index_present\<close> below), so the indexing
  cannot raise KeyError, and it is the only entry with that key
  (\<open>distinct_keys_insert_from\<close> below).
\<close>

fun insert_from :: "node \<Rightarrow> string list \<Rightarrow> pyval \<Rightarrow> node" where
  "insert_from node [] h = RouteTrieNode h (default_handler node) (children node)"
| "insert_from node (path_word # rest) h =
     (let node1 = (if map_of (children node) path_word = None
                   then node_insert node path_word (default_handler node)
                   else node)
      in RouteTrieNode (handler node1) (default_handler node1)
           (map (\<lambda>(k, child). if k = path_word then (k, insert_from child rest h) else (k, child))
              (children node1)))"

definition trie_insert :: "route_trie \<Rightarrow> string list \<Rightarrow> pyval \<Rightarrow> route_trie" where
  "trie_insert t path_list h = t\<lparr>root := insert_from (root t) path_list h\<rparr>"

text \<open>
  The loop of \<^verbatim>\<open>RouteTrie.find\<close> over \<^verbatim>\<open>enumerate(path_list)\<close>; \<open>len\<close> is
  \<^verbatim>\<open>len(path_list)\<close>. \<^verbatim>\<open>return None\<close> is the value \<open>PyNone\<close>.
\<close>

fun find_loop :: "nat \<Rightarrow> node \<Rightarrow> (nat \<times> string) list \<Rightarrow> pyval" where
  "find_loop len node [] = handler node"
| "find_loop len node ((count, each_word) # rest) =
     (case map_of (children node) each_word of
        Some child \<Rightarrow> find_loop len child rest
      | None \<Rightarrow>
          if each_word = [] \<and> int count = int len - 1
          then find_loop len node rest
          else PyNone)"

definition trie_find :: "route_trie \<Rightarrow> string list \<Rightarrow> pyval" where
  "trie_find t path_list = find_loop (length path_list) (root t) (enumerate 0 path_list)"

subsection \<open>Router\<close>

record router =
  routetrie :: route_trie

definition Router :: "pyval \<Rightarrow> pyval \<Rightarrow> router" where
  "Router h d = \<lparr>routetrie = RouteTrie h d\<rparr>"

text \<open>
  \<^verbatim>\<open>str.split(sep)\<close> for a one-character separator: one piece more than there are
  separators, empty pieces kept.
\<close>

fun split_at :: "char \<Rightarrow> string \<Rightarrow> string list" where
  "split_at sep [] = [[]]"
| "split_at sep (c # cs) =
     (let r = split_at sep cs
      in if c = sep then [] # r else (c # hd r) # tl r)"

definition split_path :: "string \<Rightarrow> string list" where
  "split_path path = split_at (CHR ''/'') path"

definition add_handler :: "router \<Rightarrow> string \<Rightarrow> pyval \<Rightarrow> router" where
  "add_handler r path h =
     r\<lparr>routetrie := trie_insert (routetrie r) (split_path path) h\<rparr>"

text \<open>
  \<^verbatim>\<open>Router.lookup\<close>. The test \<^verbatim>\<open>path_list[0] == '' and path_list[1] == ''\<close> reads index 1 only
  when the first comparison holds (\<^verbatim>\<open>and\<close> short-circuits); either read raises IndexError
  out of range. This is the result of the call; \<open>lookup_st\<close> below is the same method with
  the state of the router after the call returned as well.
\<close>

definition lookup :: "router \<Rightarrow> string \<Rightarrow> error + pyval" where
  "lookup r path =
     (let path_list = split_path path;
          not_root = (let h = trie_find (routetrie r) path_list
                      in if \<not> truthy h then Inr (default_handler (root (routetrie r)))
                         else Inr h)
      in case py_index path_list 0 of
           Inl e \<Rightarrow> Inl e
         | Inr s0 \<Rightarrow>
             if s0 = [] then
               (case py_index path_list 1 of
                  Inl e \<Rightarrow> Inl e
                | Inr s1 \<Rightarrow>
                    if s1 = [] then Inr (handler (root (routetrie r))) else not_root)
             else not_root)"

subsection \<open>Sequences of registrations and insertions\<close>

text \<open>The router after a sequence of registrations \<^verbatim>\<open>add_handler(path, handler)\<close>, in order.\<close>

definition registered :: "router \<Rightarrow> (string \<times> pyval) list \<Rightarrow> router" where
  "registered r regs = foldl (\<lambda>r' (p, h). add_handler r' p h) r regs"

text \<open>The trie after a sequence of \<^verbatim>\<open>insert(path_list, handler)\<close> calls.\<close>

definition inserted :: "route_trie \<Rightarrow> (string list \<times> pyval) list \<Rightarrow> route_trie" where
  "inserted t ops = foldl (\<lambda>t' (pl, h). trie_insert t' pl h) t ops"

subsection \<open>find and lookup as methods on the object state\<close>

text \<open>
  \<^verbatim>\<open>RouteTrie.find\<close> and \<^verbatim>\<open>Router.lookup\<close> once more, now as methods: each takes the state of
  \<^verbatim>\<open>self\<close> when it is called and returns its result together with the state of \<^verbatim>\<open>self\<close> when
  it returns, statement by statement. The local variable \<^verbatim>\<open>node\<close> is rebound by
  \<^verbatim>\<open>node = node.children[each_word]\<close>; no statement of either method assigns to an attribute
  or to a dictionary entry.
\<close>

fun find_loop_st ::
  "nat \<Rightarrow> node \<Rightarrow> (nat \<times> string) list \<Rightarrow> route_trie \<Rightarrow> pyval \<times> route_trie" where
  "find_loop_st len node [] self = (handler node, self)"
| "find_loop_st len node ((count, each_word) # rest) self =
     (case map_of (children node) each_word of
        Some child \<Rightarrow> find_loop_st len child rest self
      | None \<Rightarrow>
          if each_word = [] \<and> int count = int len - 1
          then find_loop_st len node rest self
          else (PyNone, self))"

definition find_st :: "string list \<Rightarrow> route_trie \<Rightarrow> pyval \<times> route_trie" where
  "find_st path_list self =
     find_loop_st (length path_list) (root self) (enumerate 0 path_list) self"

text \<open>Lines 117 to 121 of \<^verbatim>\<open>lookup\<close>: the call of \<^verbatim>\<open>find\<close> and the not-found policy.\<close>

definition lookup_found :: "string list \<Rightarrow> router \<Rightarrow> (error + pyval) \<times> router" where
  "lookup_found path_list self =
     (case find_st path_list (routetrie self) of
        (h, trie') \<Rightarrow>
          (let self' = self\<lparr>routetrie := trie'\<rparr>
           in if \<not> truthy h then (Inr (default_handler (root (routetrie self'))), self')
              else (Inr h, self')))"

definition lookup_st :: "string \<Rightarrow> router \<Rightarrow> (error + pyval) \<times> router" where
  "lookup_st path self =
     (let path_list = split_path path
      in case py_index path_list 0 of
           Inl e \<Rightarrow> (Inl e, self)
         | Inr s0 \<Rightarrow>
             if s0 = [] then
               (case py_index path_list 1 of
                  Inl e \<Rightarrow> (Inl e, self)
                | Inr s1 \<Rightarrow>
                    if s1 = [] then (Inr (handler (root (routetrie self))), self)
                    else lookup_found path_list self)
             else lookup_found path_list self)"

subsection \<open>The router as a state machine\<close>

text \<open>
  The two calls a client can make on a router, as a step function on the router state:
  the state after the call and what the call returned or raised.
\<close>

datatype call = AddHandler string pyval | Lookup string

datatype outcome = Returned pyval | Raised error

fun step :: "router \<Rightarrow> call \<Rightarrow> router \<times> outcome" where
  "step r (AddHandler path h) = (add_handler r path h, Returned PyNone)"
| "step r (Lookup path) =
     (case lookup_st path r of
        (Inl e, r') \<Rightarrow> (r', Raised e)
      | (Inr v, r') \<Rightarrow> (r', Returned v))"

text \<open>The registrations among a sequence of calls, in order.\<close>

fun registrations :: "call list \<Rightarrow> (string \<times> pyval) list" where
  "registrations [] = []"
| "registrations (AddHandler path h # calls) = (path, h) # registrations calls"
| "registrations (Lookup path # calls) = registrations calls"

text \<open>The router after a sequence of calls.\<close>

definition run :: "router \<Rightarrow> call list \<Rightarrow> router" where
  "run r calls = foldl (\<lambda>r' c. fst (step r' c)) r calls"

text \<open>
  The router of the test section: \<^verbatim>\<open>Router("root handler", "not found handler")\<close> with
  \<^verbatim>\<open>add_handler("/home/about", "about handler")\<close>.
\<close>

definition test_router :: router where
  "test_router =
     add_handler (Router (PyStr ''root handler'') (PyStr ''not found handler''))
       ''/home/about'' (PyStr ''about handler'')"

subsection \<open>Notions the properties are stated with\<close>

text \<open>The segment list starts with two empty segments: the path is \<^verbatim>\<open>/\<close> or starts with \<^verbatim>\<open>//\<close>.\<close>

fun root_case :: "string list \<Rightarrow> bool" where
  "root_case (s0 # s1 # rest) = (s0 = [] \<and> s1 = [])"
| "root_case _ = False"

text \<open>Every node of the tree under (and including) a node has the default handler \<open>d\<close>.\<close>

fun all_default :: "pyval \<Rightarrow> node \<Rightarrow> bool" where
  "all_default d (RouteTrieNode h dh ch) =
     (dh = d \<and> list_all (\<lambda>kc. all_default d (snd kc)) ch)"

text \<open>
  The handler stored on the node that a segment list names, walking child by child from a
  node; \<open>None\<close> when some segment has no child. This is the trie read as a partial map
  from segment lists to handlers.
\<close>

fun handler_at :: "node \<Rightarrow> string list \<Rightarrow> pyval option" where
  "handler_at node [] = Some (handler node)"
| "handler_at node (w # ws) =
     (case map_of (children node) w of
        None \<Rightarrow> None
      | Some child \<Rightarrow> handler_at child ws)"

text \<open>
  The loop of \<^verbatim>\<open>find\<close> without the counter: the round for the last word is the one with
  no word after it.
\<close>

fun find_from :: "node \<Rightarrow> string list \<Rightarrow> pyval" where
  "find_from node [] = handler node"
| "find_from node (w # ws) =
     (case map_of (children node) w of
        Some child \<Rightarrow> find_from child ws
      | None \<Rightarrow> if w = [] \<and> ws = [] then handler node else PyNone)"

text \<open>
  Two nodes differ at most in the handler of the node that the segment list names: the
  nodes on the way there have the same handlers, every node has the same default handler
  and the same keys in the same order, and every subtree off the way is the same.
\<close>

fun only_handler_differs_at :: "string list \<Rightarrow> node \<Rightarrow> node \<Rightarrow> bool" where
  "only_handler_differs_at [] a b =
     (default_handler a = default_handler b \<and> children a = children b)"
| "only_handler_differs_at (w # ws) a b =
     (handler a = handler b \<and> default_handler a = default_handler b \<and>
      list_all2
        (\<lambda>kc kc'. fst kc = fst kc' \<and>
           (if fst kc = w then only_handler_differs_at ws (snd kc) (snd kc')
            else snd kc = snd kc'))
        (children a) (children b))"

text \<open>
  In terms of the registrations made: a segment list names a node created only on the way
  to a longer registered path when it is not empty (the empty list names the root, which
  the constructor creates), is a proper prefix of the segments of some registered path and
  is the segment list of no registered path.
\<close>

definition implicit_node :: "(string \<times> pyval) list \<Rightarrow> string list \<Rightarrow> bool" where
  "implicit_node regs s =
     (s \<noteq> [] \<and>
      list_ex (\<lambda>qh. strict_prefix s (split_path (fst qh))) regs \<and>
      list_all (\<lambda>qh. split_path (fst qh) \<noteq> s) regs)"

text \<open>Some registered path runs through the node that the segment list names.\<close>

definition on_registered_path :: "(string \<times> pyval) list \<Rightarrow> string list \<Rightarrow> bool" where
  "on_registered_path regs s = list_ex (\<lambda>qh. prefix s (split_path (fst qh))) regs"

text \<open>
  The node that a round of the insert loop moves into: the child under the word, or the
  fresh node that \<^verbatim>\<open>node.insert(path_word, node.default_handler)\<close> has just created.
\<close>

definition child_or_fresh :: "node \<Rightarrow> string \<Rightarrow> node" where
  "child_or_fresh n w =
     (case map_of (children n) w of
        None \<Rightarrow> RouteTrieNode (default_handler n) (default_handler n) []
      | Some c \<Rightarrow> c)"

text \<open>
  The handler of the last registration whose path has the given segment list, if any.
\<close>

fun latest :: "(string \<times> pyval) list \<Rightarrow> string list \<Rightarrow> pyval option" where
  "latest [] qs = None"
| "latest ((q, h) # regs) qs =
     (case latest regs qs of
        Some h' \<Rightarrow> Some h'
      | None \<Rightarrow> if split_path q = qs then Some h else None)"

text \<open>
  The children dictionaries of a node and of all nodes under it are well formed: no key
  occurs twice.
\<close>

fun distinct_keys :: "node \<Rightarrow> bool" where
  "distinct_keys (RouteTrieNode h dh ch) =
     (distinct (map fst ch) \<and> list_all (\<lambda>kc. distinct_keys (snd kc)) ch)"

section \<open>Facts about the operations\<close>

subsection \<open>Splitting a path\<close>

lemma split_at_nonempty: "split_at sep p \<noteq> []"
  by (induction p) (auto simp: Let_def)

lemma split_at_eq_single_empty: "split_at sep p = [[]] \<longleftrightarrow> p = []"
  by (cases p) (auto simp: Let_def split_at_nonempty)

lemma split_at_append_sep: "split_at sep (p @ [sep]) = split_at sep p @ [[]]"
  by (induction p) (auto simp: Let_def split_at_nonempty)

lemma last_split_at_empty: "last (split_at sep p) = [] \<longleftrightarrow> p = [] \<or> last p = sep"
proof (induction p)
  case Nil
  show ?case by simp
next
  case (Cons c cs)
  obtain s ss where r: "split_at sep cs = s # ss"
    using split_at_nonempty [of sep cs] by (cases "split_at sep cs") auto
  show ?case
  proof (cases "c = sep")
    case True
    then show ?thesis using Cons.IH r by (cases cs) (auto simp: Let_def)
  next
    case False
    show ?thesis
    proof (cases ss)
      case Nil
      have "s = [] \<longleftrightarrow> cs = []"
        using split_at_eq_single_empty [of sep cs] r Nil by simp
      then show ?thesis using Cons.IH r Nil False by (cases cs) (auto simp: Let_def)
    next
      case (Cons s' ss')
      then show ?thesis using Cons.IH r False by (cases cs) (auto simp: Let_def)
    qed
  qed
qed

subsection \<open>The find loop\<close>

lemma find_loop_enumerate:
  "find_loop (k + length ws) n (enumerate k ws) = find_from n ws"
proof (induction ws arbitrary: k n)
  case Nil
  show ?case by simp
next
  case (Cons w ws)
  have "find_loop (Suc k + length ws) m (enumerate (Suc k) ws) = find_from m ws" for m
    by (rule Cons.IH)
  then show ?case
    by (cases ws) (auto split: option.splits)
qed

lemma trie_find_find_from: "trie_find t pl = find_from (root t) pl"
  using find_loop_enumerate [of 0 pl "root t"] by (simp add: trie_find_def)

subsection \<open>The insert walk\<close>

lemma map_of_map_child:
  "map_of (map (\<lambda>(k, c). if k = w then (k, f c) else (k, c)) ch) w' =
     (if w' = w then map_option f (map_of ch w) else map_of ch w')"
  by (induction ch) auto

lemma map_child_absent:
  "map_of ch w = None \<Longrightarrow> map (\<lambda>(k, c). if k = w then (k, f c) else (k, c)) ch = ch"
  by (induction ch) (auto split: if_splits)

lemma children_insert_from_Cons:
  "map_of (children (insert_from n (w # rest) h)) w' =
     (if w' = w then Some (insert_from (child_or_fresh n w) rest h)
      else map_of (children n) w')"
  by (auto simp: Let_def node_insert_def map_of_map_child child_or_fresh_def map_add_def
      split: option.splits)

lemma handler_insert_from_Cons: "handler (insert_from n (w # rest) h) = handler n"
  by (simp add: Let_def node_insert_def)

lemma default_handler_insert_from: "default_handler (insert_from n ps h) = default_handler n"
  by (cases ps) (simp_all add: Let_def node_insert_def)

lemma handler_at_insert_from_same: "handler_at (insert_from n ps h) ps = Some h"
proof (induction ps arbitrary: n)
  case Nil
  show ?case by simp
next
  case (Cons w rest)
  show ?case
    unfolding handler_at.simps children_insert_from_Cons
    using Cons.IH by simp
qed

lemma find_from_insert_from_same: "find_from (insert_from n ps h) ps = h"
proof (induction ps arbitrary: n)
  case Nil
  show ?case by simp
next
  case (Cons w rest)
  show ?case
    unfolding find_from.simps children_insert_from_Cons
    using Cons.IH by simp
qed

lemma find_from_handler_at:
  "find_from n ps =
     (case handler_at n ps of
        Some h \<Rightarrow> h
      | None \<Rightarrow>
          if ps \<noteq> [] \<and> last ps = []
          then (case handler_at n (butlast ps) of Some h \<Rightarrow> h | None \<Rightarrow> PyNone)
          else PyNone)"
proof (induction ps arbitrary: n)
  case Nil
  show ?case by simp
next
  case (Cons w ws)
  show ?case
  proof (cases "map_of (children n) w")
    case None
    then show ?thesis by (cases ws) auto
  next
    case (Some c)
    then show ?thesis using Cons.IH [of c] by (cases ws) (auto split: option.splits)
  qed
qed

subsection \<open>The default handler is the same on every node\<close>

lemma all_default_child:
  "all_default d n \<Longrightarrow> map_of (children n) w = Some c \<Longrightarrow> all_default d c"
  by (cases n) (auto simp: list_all_iff dest!: map_of_SomeD)

lemma all_default_child_or_fresh:
  "all_default d n \<Longrightarrow> all_default d (child_or_fresh n w)"
  by (cases n) (auto simp: child_or_fresh_def list_all_iff split: option.splits dest!: map_of_SomeD)

lemma all_default_node_insert:
  "all_default d n \<Longrightarrow> all_default d (node_insert n w (default_handler n))"
  by (cases n) (auto simp: node_insert_def)

lemma list_all_map_child:
  "list_all (\<lambda>kc. P (snd kc)) ch \<Longrightarrow> (\<And>c. P c \<Longrightarrow> P (f c)) \<Longrightarrow>
   list_all (\<lambda>kc. P (snd kc)) (map (\<lambda>(k, c). if k = w then (k, f c) else (k, c)) ch)"
  by (induction ch) auto

lemma all_default_insert_from:
  "all_default d n \<Longrightarrow> all_default d (insert_from n ps h)"
proof (induction ps arbitrary: n)
  case Nil
  then show ?case by (cases n) simp
next
  case (Cons w rest)
  define n1 where
    "n1 = (if map_of (children n) w = None then node_insert n w (default_handler n) else n)"
  have n1: "all_default d n1"
    using Cons.prems all_default_node_insert [of d n w] by (simp add: n1_def)
  then have "default_handler n1 = d" and ch: "list_all (\<lambda>kc. all_default d (snd kc)) (children n1)"
    by (cases n1; simp)+
  moreover have "list_all (\<lambda>kc. all_default d (snd kc))
      (map (\<lambda>(k, c). if k = w then (k, insert_from c rest h) else (k, c)) (children n1))"
    using ch Cons.IH by (rule list_all_map_child)
  ultimately show ?case
    by (simp add: Let_def n1_def [symmetric])
qed

lemma handler_at_insert_from:
  assumes "all_default d n"
  shows "handler_at (insert_from n ps h) qs =
     (if qs = ps then Some h
      else if strict_prefix qs ps
        then Some (case handler_at n qs of Some x \<Rightarrow> x | None \<Rightarrow> d)
        else handler_at n qs)"
  using assms
proof (induction ps arbitrary: n qs)
  case Nil
  then show ?case by (cases qs) auto
next
  case (Cons w rest)
  have dn: "default_handler n = d" using Cons.prems by (cases n) simp
  show ?case
  proof (cases qs)
    case Nil
    then show ?thesis by (simp add: handler_insert_from_Cons del: insert_from.simps)
  next
    case qs: (Cons w' ws)
    show ?thesis
    proof (cases "w' = w")
      case False
      then show ?thesis by (simp add: qs children_insert_from_Cons del: insert_from.simps)
    next
      case True
      have ih: "handler_at (insert_from (child_or_fresh n w) rest h) ws =
         (if ws = rest then Some h
          else if strict_prefix ws rest
            then Some (case handler_at (child_or_fresh n w) ws of Some x \<Rightarrow> x | None \<Rightarrow> d)
            else handler_at (child_or_fresh n w) ws)"
        by (rule Cons.IH) (rule all_default_child_or_fresh [OF Cons.prems])
      show ?thesis
      proof (cases "map_of (children n) w")
        case (Some c)
        then show ?thesis
          using ih True by (simp add: qs children_insert_from_Cons child_or_fresh_def del: insert_from.simps)
      next
        case None
        then show ?thesis
          using ih True dn
          by (cases ws) (auto simp: qs children_insert_from_Cons child_or_fresh_def strict_prefix_def simp del: insert_from.simps)
      qed
    qed
  qed
qed

subsection \<open>The router\<close>

lemma split_path_nonempty: "split_path p \<noteq> []"
  by (simp add: split_path_def split_at_nonempty)

lemma split_path_eq_single_empty: "split_path p = [[]] \<longleftrightarrow> p = []"
  by (simp add: split_path_def split_at_eq_single_empty)

lemma split_path_append_slash: "split_path (p @ ''/'') = split_path p @ [[]]"
  by (simp add: split_path_def split_at_append_sep)

lemma last_split_path_empty: "last (split_path p) = [] \<longleftrightarrow> p = [] \<or> last p = CHR ''/''"
  by (simp add: split_path_def last_split_at_empty)

lemma root_add_handler:
  "root (routetrie (add_handler r p h)) = insert_from (root (routetrie r)) (split_path p) h"
  by (simp add: add_handler_def trie_insert_def)

lemma registered_snoc:
  "registered r (regs @ [(p, h)]) = add_handler (registered r regs) p h"
  by (simp add: registered_def)

lemma handler_root_add_handler:
  "handler (root (routetrie (add_handler r p h))) = handler (root (routetrie r))"
proof -
  obtain w rest where "split_path p = w # rest"
    using split_path_nonempty [of p] by (cases "split_path p") auto
  then show ?thesis
    by (simp add: root_add_handler handler_insert_from_Cons del: insert_from.simps)
qed

lemma default_handler_root_add_handler:
  "default_handler (root (routetrie (add_handler r p h))) = default_handler (root (routetrie r))"
  by (simp add: root_add_handler default_handler_insert_from)

lemma handler_root_registered:
  "handler (root (routetrie (registered r regs))) = handler (root (routetrie r))"
  by (induction regs rule: rev_induct)
     (auto simp: registered_def handler_root_add_handler split: prod.splits)

lemma default_handler_root_registered:
  "default_handler (root (routetrie (registered r regs))) = default_handler (root (routetrie r))"
  by (induction regs rule: rev_induct)
     (auto simp: registered_def default_handler_root_add_handler split: prod.splits)

lemma root_Router [simp]: "root (routetrie (Router h0 d)) = RouteTrieNode h0 d []"
  by (simp add: Router_def RouteTrie_def)

lemma all_default_registered:
  "all_default d (root (routetrie r)) \<Longrightarrow> all_default d (root (routetrie (registered r regs)))"
proof (induction regs rule: rev_induct)
  case Nil
  then show ?case by (simp add: registered_def)
next
  case (snoc x regs)
  then show ?case
    by (cases x) (simp add: registered_snoc root_add_handler all_default_insert_from)
qed

lemma lookup_cases:
  "lookup r path =
     (if path = [] then Inl IndexError
      else if root_case (split_path path) then Inr (handler (root (routetrie r)))
      else Inr (let h = find_from (root (routetrie r)) (split_path path)
                in if truthy h then h else default_handler (root (routetrie r))))"
proof (cases "split_path path")
  case Nil
  then show ?thesis using split_path_nonempty by blast
next
  case (Cons s0 rest)
  show ?thesis
  proof (cases rest)
    case Nil
    then show ?thesis
      using Cons split_path_eq_single_empty [of path]
      by (auto simp: lookup_def py_index_def trie_find_find_from Let_def)
  next
    case (Cons s1 rest')
    then have "path \<noteq> []"
      using \<open>split_path path = s0 # rest\<close> split_path_eq_single_empty [of path] by auto
    then show ?thesis
      using Cons \<open>split_path path = s0 # rest\<close>
      by (auto simp: lookup_def py_index_def trie_find_find_from Let_def)
  qed
qed

lemma latest_snoc:
  "latest (regs @ [(p, h)]) qs = (if split_path p = qs then Some h else latest regs qs)"
  by (induction regs) (auto split: option.splits)

lemma latest_on_registered_path:
  "latest regs qs = Some h \<Longrightarrow> on_registered_path regs qs"
  by (induction regs) (auto simp: on_registered_path_def split: option.splits if_splits)

lemma on_registered_path_snoc:
  "on_registered_path (regs @ [(p, h)]) qs \<longleftrightarrow>
     on_registered_path regs qs \<or> prefix qs (split_path p)"
  by (auto simp: on_registered_path_def list_ex_iff)

lemma handler_at_registered:
  "handler_at (root (routetrie (registered (Router h0 d) regs))) qs =
     (case latest regs qs of
        Some h \<Rightarrow> Some h
      | None \<Rightarrow>
          if qs = [] then Some h0
          else if on_registered_path regs qs then Some d
          else None)"
proof (induction regs arbitrary: qs rule: rev_induct)
  case Nil
  show ?case by (cases qs) (simp_all add: registered_def on_registered_path_def)
next
  case (snoc x regs)
  obtain p h where x: "x = (p, h)" by (cases x)
  let ?n = "root (routetrie (registered (Router h0 d) regs))"
  have inv: "all_default d ?n"
    by (rule all_default_registered) simp
  have ne: "split_path p \<noteq> []" by (rule split_path_nonempty)
  show ?case
    unfolding x registered_snoc root_add_handler handler_at_insert_from [OF inv]
      latest_snoc on_registered_path_snoc snoc.IH
    using ne by (auto simp: strict_prefix_def split: option.splits)
qed

subsection \<open>find and lookup leave the state as it is\<close>

lemma find_loop_st_result: "fst (find_loop_st len n ws t) = find_loop len n ws"
  by (induction len n ws t rule: find_loop_st.induct) (auto split: option.splits)

lemma find_loop_st_state: "snd (find_loop_st len n ws t) = t"
  by (induction len n ws t rule: find_loop_st.induct) (auto split: option.splits)

lemma find_st_result: "fst (find_st pl t) = trie_find t pl"
  by (simp add: find_st_def trie_find_def find_loop_st_result)

lemma find_st_state: "snd (find_st pl t) = t"
  by (simp add: find_st_def find_loop_st_state)

lemma find_st_eq: "find_st pl t = (trie_find t pl, t)"
  using find_st_result [of pl t] find_st_state [of pl t] by (cases "find_st pl t") simp

lemma lookup_found_eq:
  "lookup_found pl r =
     (let h = trie_find (routetrie r) pl
      in if \<not> truthy h then Inr (default_handler (root (routetrie r))) else Inr h, r)"
  by (simp add: lookup_found_def find_st_eq Let_def)

lemma lookup_st_eq: "lookup_st path r = (lookup r path, r)"
  by (simp add: lookup_st_def lookup_def lookup_found_eq Let_def split: sum.splits)

lemma step_Lookup_state: "fst (step r (Lookup path)) = r"
  by (simp add: lookup_st_eq split: sum.splits)

lemma step_Lookup_outcome:
  "snd (step r (Lookup path)) =
     (case lookup r path of Inl e \<Rightarrow> Raised e | Inr v \<Rightarrow> Returned v)"
  by (simp add: lookup_st_eq split: sum.splits)

lemma run_snoc: "run r (calls @ [c]) = fst (step (run r calls) c)"
  by (simp add: run_def)

lemma run_lookups: "run r (map Lookup paths) = r"
proof (induction paths rule: rev_induct)
  case Nil
  show ?case by (simp add: run_def)
next
  case (snoc p paths)
  then show ?case by (simp add: run_snoc lookup_st_eq split: sum.splits)
qed

lemma registrations_snoc:
  "registrations (calls @ [c]) =
     (case c of AddHandler p h \<Rightarrow> registrations calls @ [(p, h)] | Lookup p \<Rightarrow> registrations calls)"
  by (induction calls rule: registrations.induct) (auto split: call.splits)

lemma run_registered: "run r calls = registered r (registrations calls)"
proof (induction calls rule: rev_induct)
  case Nil
  show ?case by (simp add: run_def registered_def)
next
  case (snoc c calls)
  then show ?case
    by (cases c)
      (simp_all add: run_snoc registrations_snoc registered_snoc lookup_st_eq split: sum.splits)
qed

subsection \<open>Sequences of insertions and calls\<close>

lemma all_default_inserted:
  "all_default d (root t) \<Longrightarrow> all_default d (root (inserted t ops))"
proof (induction ops rule: rev_induct)
  case Nil
  then show ?case by (simp add: inserted_def)
next
  case (snoc x ops)
  then show ?case
    by (cases x) (simp add: inserted_def trie_insert_def all_default_insert_from)
qed

lemma all_default_step:
  "all_default d (root (routetrie r)) \<Longrightarrow> all_default d (root (routetrie (fst (step r c))))"
  by (cases c)
     (simp_all add: root_add_handler all_default_insert_from lookup_st_eq split: sum.splits)

lemma all_default_run:
  "all_default d (root (routetrie r)) \<Longrightarrow> all_default d (root (routetrie (run r calls)))"
proof (induction calls rule: rev_induct)
  case Nil
  then show ?case by (simp add: run_def)
next
  case (snoc c calls)
  then show ?case
    using all_default_step [of d "run r calls" c] by (simp add: run_def)
qed

lemma find_from_registered:
  "find_from (root (routetrie (add_handler r P H))) (split_path P) = H"
  by (simp add: root_add_handler find_from_insert_from_same)

lemma lookup_after_add_handler:
  assumes "P \<noteq> []" and "\<not> root_case (split_path P)" and "truthy H"
  shows "lookup (add_handler r P H) P = Inr H"
  using assms by (simp add: lookup_cases find_from_registered)

lemma lookup_root_case:
  "root_case (split_path path) \<Longrightarrow> lookup r path = Inr (handler (root (routetrie r)))"
  by (cases "path = []") (auto simp: lookup_cases split_path_def)

lemma root_case_nth:
  "root_case pl \<longleftrightarrow> 2 \<le> length pl \<and> pl ! 0 = [] \<and> pl ! 1 = []"
  by (cases pl rule: root_case.cases) auto

lemma handler_root_registered_Router:
  "handler (root (routetrie (registered (Router h0 d) regs))) = h0"
  by (simp add: handler_root_registered)

lemma default_handler_root_registered_Router:
  "default_handler (root (routetrie (registered (Router h0 d) regs))) = d"
  by (simp add: default_handler_root_registered)

lemma lookup_value:
  "path \<noteq> [] \<Longrightarrow> \<exists>v. lookup r path = Inr v"
  by (simp add: lookup_cases)

lemma lookup_empty_path: "lookup r [] = Inl IndexError"
  by (simp add: lookup_cases)

lemma lookup_slash: "lookup (registered (Router h0 d) regs) ''/'' = Inr h0"
  by (simp add: lookup_root_case split_path_def handler_root_registered_Router)

subsection \<open>Paths off the registered ones, trailing slashes, nodes on the way\<close>

lemma handler_at_single:
  "handler_at n [w] = None \<longleftrightarrow> map_of (children n) w = None"
  by (simp split: option.splits)

lemma on_registered_path_single:
  "on_registered_path regs [w] \<longleftrightarrow> list_ex (\<lambda>qh. hd (split_path (fst qh)) = w) regs"
proof -
  have "prefix [w] (split_path q) \<longleftrightarrow> hd (split_path q) = w" for q
    using split_path_nonempty [of q] by (cases "split_path q") auto
  then show ?thesis by (simp add: on_registered_path_def)
qed

lemma latest_None_if_off_path:
  "\<not> on_registered_path regs qs \<Longrightarrow> latest regs qs = None"
  using latest_on_registered_path [of regs qs] by (cases "latest regs qs") auto

lemma handler_at_off_path:
  "qs \<noteq> [] \<Longrightarrow> \<not> on_registered_path regs qs \<Longrightarrow>
   handler_at (root (routetrie (registered (Router h0 d) regs))) qs = None"
  by (simp add: handler_at_registered latest_None_if_off_path)

lemma first_segment_unregistered:
  assumes "list_all (\<lambda>qh. hd (split_path (fst qh)) \<noteq> w) regs"
  shows "map_of (children (root (routetrie (registered (Router h0 d) regs)))) w = None"
proof -
  have "\<not> on_registered_path regs [w]"
    using assms by (simp add: on_registered_path_single list_all_iff list_ex_iff)
  then have "handler_at (root (routetrie (registered (Router h0 d) regs))) [w] = None"
    by (intro handler_at_off_path) simp_all
  then show ?thesis by (simp only: handler_at_single)
qed


lemma find_from_first_segment_absent:
  assumes "map_of (children n) (hd pl) = None" and "pl \<noteq> []" and "pl \<noteq> [[]]"
  shows "find_from n pl = PyNone"
  using assms by (cases pl) auto

lemma handler_at_implicit_node:
  assumes "implicit_node regs s"
  shows "handler_at (root (routetrie (registered (Router h0 d) regs))) s = Some d"
proof -
  have ne: "s \<noteq> []" using assms by (simp add: implicit_node_def)
  have "latest regs s = None"
  proof (cases "latest regs s")
    case (Some h)
    have "latest regs s = Some h \<Longrightarrow> list_ex (\<lambda>qh. split_path (fst qh) = s) regs"
      by (induction regs) (auto split: option.splits if_splits)
    with Some assms show ?thesis
      by (auto simp: implicit_node_def list_all_iff list_ex_iff)
  qed simp
  moreover have "on_registered_path regs s"
    using assms
    by (auto simp: implicit_node_def on_registered_path_def list_ex_iff strict_prefix_def)
  ultimately show ?thesis using ne by (simp add: handler_at_registered)
qed

lemma root_case_snoc_empty:
  assumes "pl \<noteq> []" and "last pl \<noteq> []"
  shows "root_case (pl @ [[]]) = root_case pl"
proof (cases pl)
  case Nil
  with assms show ?thesis by simp
next
  case (Cons s0 rest)
  with assms show ?thesis by (cases rest) auto
qed

lemma find_from_snoc_empty:
  assumes "handler_at n (pl @ [[]]) = None" and "pl \<noteq> []" and "last pl \<noteq> []"
  shows "find_from n (pl @ [[]]) = find_from n pl"
  using assms by (simp add: find_from_handler_at split: option.splits)

lemma lookup_trailing_slash:
  assumes "P \<noteq> []" and "last P \<noteq> CHR ''/''"
    and "\<not> on_registered_path regs (split_path P @ [[]])"
  shows "lookup (registered (Router h0 d) regs) (P @ ''/'') =
         lookup (registered (Router h0 d) regs) P"
proof -
  let ?n = "root (routetrie (registered (Router h0 d) regs))"
  have ne: "split_path P \<noteq> []" by (rule split_path_nonempty)
  have last: "last (split_path P) \<noteq> []"
    using assms(1,2) by (simp add: last_split_path_empty)
  have "handler_at ?n (split_path P @ [[]]) = None"
    using assms(3) by (simp add: handler_at_off_path)
  then have "find_from ?n (split_path P @ [[]]) = find_from ?n (split_path P)"
    using ne last by (rule find_from_snoc_empty)
  then show ?thesis
    using assms(1) root_case_snoc_empty [OF ne last]
    by (simp add: lookup_cases split_path_append_slash)
qed

lemma no_deeper_off_path:
  assumes "list_all (\<lambda>qh. \<not> strict_prefix s (split_path (fst qh))) regs"
  shows "\<not> on_registered_path regs (s @ [[]])"
proof
  assume "on_registered_path regs (s @ [[]])"
  then obtain qh where "qh \<in> set regs" and "prefix (s @ [[]]) (split_path (fst qh))"
    by (auto simp: on_registered_path_def list_ex_iff)
  then have "strict_prefix s (split_path (fst qh))"
    by (auto simp: strict_prefix_def prefix_def)
  with \<open>qh \<in> set regs\<close> assms show False by (auto simp: list_all_iff)
qed

subsection \<open>Inserting a path again\<close>

lemma insert_from_Cons_present:
  "map_of (children n) w \<noteq> None \<Longrightarrow>
   insert_from n (w # rest) h =
     RouteTrieNode (handler n) (default_handler n)
       (map (\<lambda>(k, c). if k = w then (k, insert_from c rest h) else (k, c)) (children n))"
  by (auto simp: Let_def)

lemma reinsert_only_handler_differs:
  "only_handler_differs_at ps (insert_from n ps h1) (insert_from (insert_from n ps h1) ps h2)"
proof (induction ps arbitrary: n)
  case Nil
  show ?case by simp
next
  case (Cons w rest)
  let ?t1 = "insert_from n (w # rest) h1"
  define n1 where
    "n1 = (if map_of (children n) w = None then node_insert n w (default_handler n) else n)"
  have t1: "?t1 = RouteTrieNode (handler n1) (default_handler n1)
      (map (\<lambda>(k, c). if k = w then (k, insert_from c rest h1) else (k, c)) (children n1))"
    by (simp add: Let_def n1_def)
  have present: "map_of (children ?t1) w \<noteq> None"
    by (simp add: children_insert_from_Cons del: insert_from.simps)
  have t2: "insert_from ?t1 (w # rest) h2 =
      RouteTrieNode (handler ?t1) (default_handler ?t1)
        (map (\<lambda>(k, c). if k = w then (k, insert_from c rest h2) else (k, c)) (children ?t1))"
    by (rule insert_from_Cons_present [OF present])
  have "list_all2
        (\<lambda>kc kc'. fst kc = fst kc' \<and>
           (if fst kc = w then only_handler_differs_at rest (snd kc) (snd kc')
            else snd kc = snd kc'))
        (children ?t1)
        (map (\<lambda>(k, c). if k = w then (k, insert_from c rest h2) else (k, c)) (children ?t1))"
    unfolding t1 node.sel list.rel_map
    by (rule list.rel_refl_strong) (auto simp: Cons.IH split: if_splits)
  then show ?case
    unfolding only_handler_differs_at.simps t2 node.sel by simp
qed

subsection \<open>The children dictionary\<close>

lemma insert_index_present:
  "map_of (children (if map_of (children n) w = None
                     then node_insert n w (default_handler n) else n)) w \<noteq> None"
  by (auto simp: node_insert_def map_add_def)

lemma map_fst_map_child:
  "map fst (map (\<lambda>(k, c). if k = w then (k, f c) else (k, c)) ch) = map fst ch"
  by (induction ch) auto

lemma distinct_keys_node_insert:
  "distinct_keys n \<Longrightarrow> distinct_keys (node_insert n w (default_handler n))"
  by (cases n) (auto simp: node_insert_def map_of_eq_None_iff)

lemma distinct_keys_insert_from:
  "distinct_keys n \<Longrightarrow> distinct_keys (insert_from n ps h)"
proof (induction ps arbitrary: n)
  case Nil
  then show ?case by (cases n) simp
next
  case (Cons w rest)
  define n1 where
    "n1 = (if map_of (children n) w = None then node_insert n w (default_handler n) else n)"
  have "distinct_keys n1"
    using Cons.prems distinct_keys_node_insert [of n w] by (simp add: n1_def)
  then have d: "distinct (map fst (children n1))"
    and ch: "list_all (\<lambda>kc. distinct_keys (snd kc)) (children n1)"
    by (cases n1; simp)+
  have "list_all (\<lambda>kc. distinct_keys (snd kc))
      (map (\<lambda>(k, c). if k = w then (k, insert_from c rest h) else (k, c)) (children n1))"
    using ch Cons.IH by (rule list_all_map_child)
  moreover have "distinct
      (map fst (map (\<lambda>(k, c). if k = w then (k, insert_from c rest h) else (k, c)) (children n1)))"
    using d by (simp only: map_fst_map_child)
  ultimately show ?case
    by (simp add: Let_def n1_def [symmetric] del: map_map)
qed

lemma distinct_keys_registered:
  "distinct_keys (root (routetrie (registered (Router h0 d) regs)))"
proof (induction regs rule: rev_induct)
  case Nil
  show ?case by (simp add: registered_def)
next
  case (snoc x regs)
  then show ?case
    by (cases x) (simp add: registered_snoc root_add_handler distinct_keys_insert_from)
qed

subsection \<open>The latest registration of a path\<close>

lemma split_at_inject: "split_at sep p = split_at sep q \<Longrightarrow> p = q"
proof (induction p arbitrary: q)
  case Nil
  then show ?case using split_at_eq_single_empty [of sep q] by simp
next
  case (Cons c cs)
  show ?case
  proof (cases q)
    case Nil
    then show ?thesis
      using Cons.prems split_at_eq_single_empty [of sep "c # cs"] by simp
  next
    case q: (Cons e es)
    obtain s ss where r: "split_at sep cs = s # ss"
      using split_at_nonempty [of sep cs] by (cases "split_at sep cs") auto
    obtain s' ss' where r': "split_at sep es = s' # ss'"
      using split_at_nonempty [of sep es] by (cases "split_at sep es") auto
    from Cons.prems have "c = e \<and> split_at sep cs = split_at sep es"
      by (auto simp: q r r' Let_def split: if_splits)
    then show ?thesis using Cons.IH [of es] q by simp
  qed
qed

lemma split_path_inject: "split_path p = split_path q \<longleftrightarrow> p = q"
  using split_at_inject [of "CHR ''/''" p q] by (auto simp: split_path_def)

lemma latest_append:
  "latest (xs @ ys) qs = (case latest ys qs of Some h \<Rightarrow> Some h | None \<Rightarrow> latest xs qs)"
  by (induction xs) (auto split: option.splits)

lemma latest_not_registered:
  "P \<notin> fst ` set regs \<Longrightarrow> latest regs (split_path P) = None"
  by (induction regs) (auto simp: split_path_inject split: option.splits)

lemma latest_last_registration:
  "P \<notin> fst ` set after \<Longrightarrow> latest (before @ (P, H) # after) (split_path P) = Some H"
  by (simp add: latest_append latest_not_registered)

lemma find_from_latest:
  assumes "latest regs (split_path P) = Some H"
  shows "find_from (root (routetrie (registered (Router h0 d) regs))) (split_path P) = H"
  using assms by (simp add: find_from_handler_at handler_at_registered)

lemma lookup_latest:
  assumes "P \<noteq> []" and "\<not> root_case (split_path P)" and "truthy H"
    and "latest regs (split_path P) = Some H"
  shows "lookup (registered (Router h0 d) regs) P = Inr H"
  using assms by (simp add: lookup_cases find_from_latest)

subsection \<open>Inserting a path that is there\<close>

lemma distinct_keys_child:
  "distinct_keys n \<Longrightarrow> (k, c) \<in> set (children n) \<Longrightarrow>
   distinct_keys c \<and> map_of (children n) k = Some c"
  by (cases n) (auto simp: list_all_iff)

lemma insert_only_handler_differs:
  "distinct_keys n \<Longrightarrow> handler_at n ps \<noteq> None \<Longrightarrow>
   only_handler_differs_at ps n (insert_from n ps h)"
proof (induction ps arbitrary: n)
  case Nil
  show ?case by simp
next
  case (Cons w rest)
  from Cons.prems(2) obtain c where c: "map_of (children n) w = Some c"
    and at: "handler_at c rest \<noteq> None"
    by (auto split: option.splits)
  have ins: "insert_from n (w # rest) h =
      RouteTrieNode (handler n) (default_handler n)
        (map (\<lambda>(k, c). if k = w then (k, insert_from c rest h) else (k, c)) (children n))"
    using c by (intro insert_from_Cons_present) simp
  have "list_all2
        (\<lambda>kc kc'. fst kc = fst kc' \<and>
           (if fst kc = w then only_handler_differs_at rest (snd kc) (snd kc')
            else snd kc = snd kc'))
        (children n)
        (map (\<lambda>(k, c). if k = w then (k, insert_from c rest h) else (k, c)) (children n))"
    unfolding list.rel_map
  proof (rule list.rel_refl_strong)
    fix kc assume kc: "kc \<in> set (children n)"
    obtain k c' where eq: "kc = (k, c')" by (cases kc)
    have dk: "distinct_keys c'" and look: "map_of (children n) k = Some c'"
      using distinct_keys_child [OF Cons.prems(1)] kc eq by auto
    show "fst kc = fst (case kc of (k, c) \<Rightarrow> if k = w then (k, insert_from c rest h) else (k, c)) \<and>
       (if fst kc = w
        then only_handler_differs_at rest (snd kc)
               (snd (case kc of (k, c) \<Rightarrow> if k = w then (k, insert_from c rest h) else (k, c)))
        else snd kc =
               snd (case kc of (k, c) \<Rightarrow> if k = w then (k, insert_from c rest h) else (k, c)))"
    proof (cases "k = w")
      case True
      then have "c' = c" using look c by simp
      then show ?thesis using True eq Cons.IH [OF dk] at by simp
    next
      case False
      then show ?thesis using eq by simp
    qed
  qed
  then show ?case
    unfolding only_handler_differs_at.simps ins node.sel by simp
qed

lemma distinct_keys_inserted:
  "distinct_keys (root t) \<Longrightarrow> distinct_keys (root (inserted t ops))"
proof (induction ops rule: rev_induct)
  case Nil
  then show ?case by (simp add: inserted_def)
next
  case (snoc x ops)
  then show ?case
    by (cases x) (simp add: inserted_def trie_insert_def distinct_keys_insert_from)
qed

lemma handler_at_insert_from_present:
  "all_default d n \<Longrightarrow> handler_at n qs \<noteq> None \<Longrightarrow> handler_at (insert_from n ps h) qs \<noteq> None"
  by (simp add: handler_at_insert_from)

lemma handler_at_inserted_present:
  assumes "list_ex (\<lambda>op. fst op = pl) ops"
  shows "handler_at (root (inserted (RouteTrie h0 d) ops)) pl \<noteq> None"
  using assms
proof (induction ops rule: rev_induct)
  case Nil
  then show ?case by simp
next
  case (snoc x ops)
  obtain ql h where x: "x = (ql, h)" by (cases x)
  have inv: "all_default d (root (inserted (RouteTrie h0 d) ops))"
    by (rule all_default_inserted) (simp add: RouteTrie_def)
  have step: "root (inserted (RouteTrie h0 d) (ops @ [x])) =
      insert_from (root (inserted (RouteTrie h0 d) ops)) ql h"
    by (simp add: x inserted_def trie_insert_def)
  show ?case
  proof (cases "ql = pl")
    case True
    then show ?thesis by (simp add: step handler_at_insert_from_same)
  next
    case False
    then have "list_ex (\<lambda>op. fst op = pl) ops" using snoc.prems x by simp
    then have "handler_at (root (inserted (RouteTrie h0 d) ops)) pl \<noteq> None"
      by (rule snoc.IH)
    then show ?thesis
      unfolding step by (rule handler_at_insert_from_present [OF inv])
  qed
qed

lemma handler_at_registered_present:
  "latest regs qs \<noteq> None \<Longrightarrow>
   handler_at (root (routetrie (registered (Router h0 d) regs))) qs \<noteq> None"
  by (auto simp: handler_at_registered)

lemma latest_registered:
  "P \<in> fst ` set regs \<Longrightarrow> latest regs (split_path P) \<noteq> None"
proof (induction regs)
  case Nil
  then show ?case by simp
next
  case (Cons x regs)
  obtain q h where x: "x = (q, h)" by (cases x)
  show ?case
  proof (cases "latest regs (split_path P)")
    case (Some h')
    then show ?thesis by (simp add: x)
  next
    case None
    then have "P \<notin> fst ` set regs" using Cons.IH by auto
    then have "q = P" using Cons.prems x by auto
    then show ?thesis using None by (simp add: x)
  qed
qed

lemma root_inserted_snoc:
  "root (trie_insert t pl h) = insert_from (root t) pl h"
  by (simp add: trie_insert_def)

subsection \<open>The test section of the source\<close>

lemma test_router_registered:
  "test_router =
     registered (Router (PyStr ''root handler'') (PyStr ''not found handler''))
       [(''/home/about'', PyStr ''about handler'')]"
  by (simp add: test_router_def registered_def)

lemma split_path_examples:
  "split_path ''/'' = [[], []]"
  "split_path ''/home'' = [[], ''home'']"
  "split_path ''/home/'' = [[], ''home'', []]"
  "split_path ''/home/about'' = [[], ''home'', ''about'']"
  "split_path ''/home/about/'' = [[], ''home'', ''about'', []]"
  "split_path ''/home/about/me'' = [[], ''home'', ''about'', ''me'']"
  "split_path ''//foo/bar'' = [[], [], ''foo'', ''bar'']"
  "split_path ''blog/2019'' = [''blog'', ''2019'']"
  "split_path ''/a'' = [[], ''a'']"
  by (simp_all add: split_path_def)

lemma root_test_router:
  "root (routetrie test_router) =
     RouteTrieNode (PyStr ''root handler'') (PyStr ''not found handler'')
       [([], RouteTrieNode (PyStr ''not found handler'') (PyStr ''not found handler'')
          [(''home'', RouteTrieNode (PyStr ''not found handler'') (PyStr ''not found handler'')
             [(''about'', RouteTrieNode (PyStr ''about handler'') (PyStr ''not found handler'')
                [])])])]"
  by (simp add: test_router_def root_add_handler split_path_examples node_insert_def)

lemma test_section_outputs:
  "lookup test_router ''/'' = Inr (PyStr ''root handler'')"
  "lookup test_router ''/home'' = Inr (PyStr ''not found handler'')"
  "lookup test_router ''/home/about'' = Inr (PyStr ''about handler'')"
  "lookup test_router ''/home/about/'' = Inr (PyStr ''about handler'')"
  "lookup test_router ''/home/about/me'' = Inr (PyStr ''not found handler'')"
  by (simp_all add: lookup_cases split_path_examples root_test_router)

section \<open>The claims\<close>

subsection \<open>C1: looking up a registered path\<close>

text \<open>
  C1, as the code has it. Let \<open>P\<close> be a non-empty path whose segment list does not start
  with two empty segments (\<open>P\<close> is not \<^verbatim>\<open>/\<close> and does not start with \<^verbatim>\<open>//\<close>), and let
  \<open>H\<close> be a handler that Python counts as true. Register any routes, then \<open>P\<close> with \<open>H\<close>,
  then any further routes other than \<open>P\<close>: on the router reached, \<^verbatim>\<open>lookup(P)\<close> returns \<open>H\<close>,
  also when calls of \<^verbatim>\<open>lookup\<close> were made in between. Said with \<open>latest\<close>: whenever the
  last registration of \<open>P\<close> gave it \<open>H\<close>, \<^verbatim>\<open>lookup(P)\<close> returns \<open>H\<close>. In particular
  \<^verbatim>\<open>lookup(P)\<close> right after \<^verbatim>\<open>add_handler(P, H)\<close> returns \<open>H\<close> on every router. The two
  restrictions are the two places where \<^verbatim>\<open>lookup\<close> does not return what the trie stores: the
  root shortcut, and the test \<^verbatim>\<open>if not handler\<close>.
\<close>

theorem lookup_returns_registered_handler:
  assumes "P \<noteq> []" and "\<not> root_case (split_path P)" and "truthy H"
    and "P \<notin> fst ` set after"
  shows "lookup (registered (Router h0 d) (before @ (P, H) # after)) P = Inr H \<and>
         (registrations calls = before @ (P, H) # after \<longrightarrow>
            lookup (run (Router h0 d) calls) P = Inr H) \<and>
         (latest regs (split_path P) = Some H \<longrightarrow>
            lookup (registered (Router h0 d) regs) P = Inr H) \<and>
         lookup (add_handler r P H) P = Inr H"
proof -
  have "latest (before @ (P, H) # after) (split_path P) = Some H"
    using assms(4) by (rule latest_last_registration)
  then have "lookup (registered (Router h0 d) (before @ (P, H) # after)) P = Inr H"
    by (rule lookup_latest [OF assms(1-3)])
  moreover have "lookup (registered (Router h0 d) regs) P = Inr H"
    if "latest regs (split_path P) = Some H"
    using that by (rule lookup_latest [OF assms(1-3)])
  moreover have "lookup (add_handler r P H) P = Inr H"
    using assms(1-3) by (rule lookup_after_add_handler)
  ultimately show ?thesis
    by (simp add: run_registered)
qed

theorem lookup_returns_registered_handler_witness:
  "''/home/about'' \<noteq> [] \<and> \<not> root_case (split_path ''/home/about'') \<and>
   truthy (PyStr ''new about handler'') \<and>
   ''/home/about'' \<notin> fst ` set [(''/blog'', PyStr ''blog handler'')] \<and>
   lookup (registered (Router (PyStr ''root handler'') (PyStr ''not found handler''))
             ([(''/home/about'', PyStr ''about handler'')] @
              (''/home/about'', PyStr ''new about handler'') #
              [(''/blog'', PyStr ''blog handler'')])) ''/home/about'' =
     Inr (PyStr ''new about handler'')"
proof -
  have h1: "''/home/about'' \<noteq> []" by simp
  have h2: "\<not> root_case (split_path ''/home/about'')" by (simp add: split_path_examples)
  have h3: "truthy (PyStr ''new about handler'')" by simp
  have h4: "''/home/about'' \<notin> fst ` set [(''/blog'', PyStr ''blog handler'')]" by simp
  show ?thesis
    using h1 h2 h3 h4
      lookup_returns_registered_handler [OF h1 h2 h3 h4,
        of "PyStr ''root handler''" "PyStr ''not found handler''"
          "[(''/home/about'', PyStr ''about handler'')]" "[]" "[]"
          "Router (PyStr ''root handler'') (PyStr ''not found handler'')"]
    by blast
qed

text \<open>
  The claim as stated fails: a handler registered for \<^verbatim>\<open>/\<close> is not what \<^verbatim>\<open>lookup("/")\<close>
  returns (the root shortcut answers), and a handler that Python counts as false, such as
  \<^verbatim>\<open>None\<close>, is replaced by the not-found handler.
\<close>

theorem lookup_registered_handler_counterexample:
  "lookup (add_handler (Router (PyStr ''root handler'') (PyStr ''not found handler''))
             ''/'' (PyStr ''h'')) ''/'' = Inr (PyStr ''root handler'') \<and>
   lookup (add_handler (Router (PyStr ''root handler'') (PyStr ''not found handler''))
             ''/'' (PyStr ''h'')) ''/'' \<noteq> Inr (PyStr ''h'') \<and>
   lookup (add_handler (Router (PyStr ''root handler'') (PyStr ''not found handler''))
             ''/a'' PyNone) ''/a'' = Inr (PyStr ''not found handler'') \<and>
   lookup (add_handler (Router (PyStr ''root handler'') (PyStr ''not found handler''))
             ''/a'' PyNone) ''/a'' \<noteq> Inr PyNone"
  by (simp add: lookup_cases split_path_examples root_add_handler node_insert_def)

subsection \<open>C2: the root path and the empty path\<close>

text \<open>
  C2, at the empty path. On the router of the test section \<^verbatim>\<open>lookup("/")\<close> returns the
  root handler, but \<^verbatim>\<open>lookup("")\<close> raises IndexError: \<^verbatim>\<open>"".split("/")\<close> is \<^verbatim>\<open>['']\<close>, the
  first comparison of the root test holds, and the second reads \<^verbatim>\<open>path_list[1]\<close>.
\<close>

theorem lookup_empty_path_on_test_router:
  "lookup test_router ''/'' = Inr (PyStr ''root handler'') \<and>
   lookup test_router '''' = Inl IndexError"
  by (simp add: test_section_outputs lookup_empty_path)

subsection \<open>C3: lookup never raises\<close>

text \<open>
  C3, at the empty path: on every router \<^verbatim>\<open>lookup("")\<close> raises IndexError. (For every
  other path a value is returned: \<open>lookup_value\<close>.)
\<close>

theorem lookup_empty_path_raises: "lookup r '''' = Inl IndexError"
  by (rule lookup_empty_path)

subsection \<open>C4: a first segment that was never registered\<close>

text \<open>
  C4, as the code has it. Let \<open>path\<close> be a non-empty path whose segment list does not
  start with two empty segments, and let no registered path have the first segment of
  \<open>path\<close> as its first segment. Then \<^verbatim>\<open>lookup(path)\<close> returns the not-found handler the
  router was constructed with.
\<close>

theorem lookup_unregistered_first_segment:
  assumes "path \<noteq> []" and "\<not> root_case (split_path path)"
    and "list_all (\<lambda>qh. hd (split_path (fst qh)) \<noteq> hd (split_path path)) regs"
  shows "lookup (registered (Router h0 d) regs) path = Inr d"
proof -
  let ?n = "root (routetrie (registered (Router h0 d) regs))"
  have "map_of (children ?n) (hd (split_path path)) = None"
    using assms(3) by (rule first_segment_unregistered)
  moreover have "split_path path \<noteq> [[]]"
    using assms(1) by (simp add: split_path_eq_single_empty)
  ultimately have "find_from ?n (split_path path) = PyNone"
    using split_path_nonempty by (intro find_from_first_segment_absent)
  then show ?thesis
    using assms(1,2) by (simp add: lookup_cases default_handler_root_registered_Router)
qed

theorem lookup_unregistered_first_segment_witness:
  "''blog/2019'' \<noteq> [] \<and> \<not> root_case (split_path ''blog/2019'') \<and>
   list_all (\<lambda>qh. hd (split_path (fst qh)) \<noteq> hd (split_path ''blog/2019''))
     [(''/home/about'', PyStr ''about handler'')] \<and>
   lookup (registered (Router (PyStr ''root handler'') (PyStr ''not found handler''))
             [(''/home/about'', PyStr ''about handler'')]) ''blog/2019'' =
     Inr (PyStr ''not found handler'')"
proof -
  have h1: "''blog/2019'' \<noteq> []" by simp
  have h2: "\<not> root_case (split_path ''blog/2019'')" by (simp add: split_path_examples)
  have h3: "list_all (\<lambda>qh. hd (split_path (fst qh)) \<noteq> hd (split_path ''blog/2019''))
     [(''/home/about'', PyStr ''about handler'')]"
    by (simp add: split_path_examples)
  show ?thesis
    using h1 h2 h3 lookup_unregistered_first_segment [OF h1 h2 h3] by simp
qed

text \<open>
  The claim as stated fails on a router with no registration at all: the first segment of
  \<^verbatim>\<open>/\<close> is the empty string, which is no child of the root, and \<^verbatim>\<open>lookup("/")\<close> returns the
  root handler, not the not-found handler.
\<close>

theorem lookup_unregistered_first_segment_counterexample:
  "list_all (\<lambda>qh. hd (split_path (fst qh)) \<noteq> hd (split_path ''/'')) [] \<and>
   children (root (routetrie (registered
      (Router (PyStr ''root handler'') (PyStr ''not found handler'')) []))) = [] \<and>
   lookup (registered (Router (PyStr ''root handler'') (PyStr ''not found handler'')) []) ''/'' =
     Inr (PyStr ''root handler'') \<and>
   lookup (registered (Router (PyStr ''root handler'') (PyStr ''not found handler'')) []) ''/'' \<noteq>
     Inr (PyStr ''not found handler'')"
  by (simp add: lookup_cases split_path_examples registered_def)

subsection \<open>C5: a trailing slash\<close>

text \<open>
  C5, at the empty path. Register the empty path (it does not end in \<^verbatim>\<open>/\<close>, and nothing
  lies below it). Then \<^verbatim>\<open>lookup("" + "/")\<close> returns the root handler, while \<^verbatim>\<open>lookup("")\<close>
  raises IndexError and returns nothing to compare with. For every non-empty path the
  property holds: \<open>lookup_trailing_slash\<close>, with \<open>no_deeper_off_path\<close>.
\<close>

theorem lookup_trailing_slash_empty_path:
  "lookup (add_handler (Router (PyStr ''root handler'') (PyStr ''not found handler''))
             '''' (PyStr ''h'')) ('''' @ ''/'') = Inr (PyStr ''root handler'') \<and>
   lookup (add_handler (Router (PyStr ''root handler'') (PyStr ''not found handler''))
             '''' (PyStr ''h'')) '''' = Inl IndexError"
  by (simp add: lookup_cases split_path_examples handler_root_add_handler)

subsection \<open>C6: nodes created on the way to a longer path\<close>

text \<open>
  C6, as the code has it. Let \<open>path\<close> be a non-empty path whose segment list does not
  start with two empty segments, and let the walk of \<^verbatim>\<open>find\<close> end at a node that was
  created only on the way to a longer registered path: either the segment list of
  \<open>path\<close> names such a node, or it ends in an empty segment that has no child and the
  segments before it name such a node. Then \<^verbatim>\<open>find\<close> returns the default handler, not
  \<^verbatim>\<open>None\<close>, and \<^verbatim>\<open>lookup\<close> returns the default handler.
\<close>

theorem lookup_implicit_node:
  assumes "path \<noteq> []" and "\<not> root_case (split_path path)"
    and "implicit_node regs (split_path path) \<or>
         (last (split_path path) = [] \<and>
          implicit_node regs (butlast (split_path path)) \<and>
          \<not> on_registered_path regs (split_path path))"
  shows "trie_find (routetrie (registered (Router h0 d) regs)) (split_path path) = d \<and>
         lookup (registered (Router h0 d) regs) path = Inr d"
proof -
  let ?n = "root (routetrie (registered (Router h0 d) regs))"
  have ne: "split_path path \<noteq> []" by (rule split_path_nonempty)
  have "find_from ?n (split_path path) = d"
    using assms(3)
  proof
    assume "implicit_node regs (split_path path)"
    then show ?thesis
      by (simp add: find_from_handler_at handler_at_implicit_node)
  next
    assume tr: "last (split_path path) = [] \<and>
          implicit_node regs (butlast (split_path path)) \<and>
          \<not> on_registered_path regs (split_path path)"
    then have "handler_at ?n (split_path path) = None"
      using ne by (simp add: handler_at_off_path)
    then show ?thesis
      using tr ne by (simp add: find_from_handler_at handler_at_implicit_node)
  qed
  then show ?thesis
    using assms(1,2)
    by (simp add: lookup_cases trie_find_find_from default_handler_root_registered_Router)
qed

theorem lookup_implicit_node_witness:
  "''/home'' \<noteq> [] \<and> \<not> root_case (split_path ''/home'') \<and>
   implicit_node [(''/home/about'', PyStr ''about handler'')] (split_path ''/home'') \<and>
   lookup (registered (Router (PyStr ''root handler'') (PyStr ''not found handler''))
             [(''/home/about'', PyStr ''about handler'')]) ''/home'' =
     Inr (PyStr ''not found handler'') \<and>
   ''/home/'' \<noteq> [] \<and> \<not> root_case (split_path ''/home/'') \<and>
   last (split_path ''/home/'') = [] \<and>
   implicit_node [(''/home/about'', PyStr ''about handler'')] (butlast (split_path ''/home/'')) \<and>
   \<not> on_registered_path [(''/home/about'', PyStr ''about handler'')] (split_path ''/home/'') \<and>
   lookup (registered (Router (PyStr ''root handler'') (PyStr ''not found handler''))
             [(''/home/about'', PyStr ''about handler'')]) ''/home/'' =
     Inr (PyStr ''not found handler'')"
proof -
  let ?regs = "[(''/home/about'', PyStr ''about handler'')]"
  have a1: "''/home'' \<noteq> []" by simp
  have a2: "\<not> root_case (split_path ''/home'')" by (simp add: split_path_examples)
  have a3: "implicit_node ?regs (split_path ''/home'')"
    by (simp add: implicit_node_def split_path_examples strict_prefix_def)
  have b1: "''/home/'' \<noteq> []" by simp
  have b2: "\<not> root_case (split_path ''/home/'')" by (simp add: split_path_examples)
  have b3: "last (split_path ''/home/'') = []" by (simp add: split_path_examples)
  have b4: "implicit_node ?regs (butlast (split_path ''/home/''))"
    by (simp add: implicit_node_def split_path_examples strict_prefix_def)
  have b5: "\<not> on_registered_path ?regs (split_path ''/home/'')"
    by (simp add: on_registered_path_def split_path_examples)
  have a: "implicit_node ?regs (split_path ''/home'') \<or>
         (last (split_path ''/home'') = [] \<and>
          implicit_node ?regs (butlast (split_path ''/home'')) \<and>
          \<not> on_registered_path ?regs (split_path ''/home''))"
    using a3 by blast
  have b: "implicit_node ?regs (split_path ''/home/'') \<or>
         (last (split_path ''/home/'') = [] \<and>
          implicit_node ?regs (butlast (split_path ''/home/'')) \<and>
          \<not> on_registered_path ?regs (split_path ''/home/''))"
    using b3 b4 b5 by blast
  show ?thesis
    using a1 a2 a3 b1 b2 b3 b4 b5
      lookup_implicit_node [OF a1 a2 a, of "PyStr ''root handler''" "PyStr ''not found handler''"]
      lookup_implicit_node [OF b1 b2 b, of "PyStr ''root handler''" "PyStr ''not found handler''"]
    by simp
qed

text \<open>
  The claim as stated fails for a path that the root shortcut answers: with only
  \<^verbatim>\<open>//a/b\<close> registered, \<^verbatim>\<open>//a\<close> names a node created on the way, and \<^verbatim>\<open>lookup("//a")\<close>
  returns the root handler, not the default handler.
\<close>

theorem lookup_implicit_node_counterexample:
  "implicit_node [(''//a/b'', PyStr ''b handler'')] (split_path ''//a'') \<and>
   lookup (registered (Router (PyStr ''root handler'') (PyStr ''not found handler''))
             [(''//a/b'', PyStr ''b handler'')]) ''//a'' = Inr (PyStr ''root handler'') \<and>
   lookup (registered (Router (PyStr ''root handler'') (PyStr ''not found handler''))
             [(''//a/b'', PyStr ''b handler'')]) ''//a'' \<noteq> Inr (PyStr ''not found handler'')"
  by (simp add: implicit_node_def strict_prefix_def lookup_cases split_path_def
      handler_root_registered_Router)

subsection \<open>C7: inserting the same path again\<close>

text \<open>
  C7, as the code has it. Inserting a segment list whose node is already in the trie
  changes nothing but the handler of that node: the nodes on the way keep their handlers,
  every node keeps its default handler and its keys, and every subtree off the way is the
  same. That is so in particular for a list that was inserted before, whatever was
  inserted in between, on the trie and on the router. The node then holds the new handler,
  and \<^verbatim>\<open>find\<close> of the list returns it, until the list is inserted again: after any further
  registrations of other paths, \<^verbatim>\<open>find\<close> returns the handler of the latest registration of
  the path. \<^verbatim>\<open>Router.lookup\<close> of the path returns that handler when the path is not empty,
  its segment list does not start with two empty segments and the handler counts as
  true.
\<close>

theorem reinsert_overwrites_terminal_handler:
  "(distinct_keys (root t) \<and> handler_at (root t) pl \<noteq> None \<longrightarrow>
      only_handler_differs_at pl (root t) (root (trie_insert t pl hnew))) \<and>
   (list_ex (\<lambda>op. fst op = pl) ops \<longrightarrow>
      only_handler_differs_at pl (root (inserted (RouteTrie hroot d) ops))
        (root (trie_insert (inserted (RouteTrie hroot d) ops) pl hnew))) \<and>
   (P \<in> fst ` set regs \<longrightarrow>
      only_handler_differs_at (split_path P) (root (routetrie (registered (Router hroot d) regs)))
        (root (routetrie (add_handler (registered (Router hroot d) regs) P hnew)))) \<and>
   handler_at (root (trie_insert t pl hnew)) pl = Some hnew \<and>
   trie_find (trie_insert t pl hnew) pl = hnew \<and>
   (P \<notin> fst ` set after \<longrightarrow>
      trie_find (routetrie (registered (Router hroot d) (before @ (P, hnew) # after)))
        (split_path P) = hnew \<and>
      (P \<noteq> [] \<and> \<not> root_case (split_path P) \<and> truthy hnew \<longrightarrow>
         lookup (registered (Router hroot d) (before @ (P, hnew) # after)) P = Inr hnew))"
proof -
  have a: "only_handler_differs_at pl (root t) (root (trie_insert t pl hnew))"
    if "distinct_keys (root t)" and "handler_at (root t) pl \<noteq> None" for t :: route_trie
    using that by (simp add: root_inserted_snoc insert_only_handler_differs)
  have b: "only_handler_differs_at pl (root (inserted (RouteTrie hroot d) ops))
        (root (trie_insert (inserted (RouteTrie hroot d) ops) pl hnew))"
    if "list_ex (\<lambda>op. fst op = pl) ops"
  proof (rule a)
    show "distinct_keys (root (inserted (RouteTrie hroot d) ops))"
      by (rule distinct_keys_inserted) (simp add: RouteTrie_def)
    show "handler_at (root (inserted (RouteTrie hroot d) ops)) pl \<noteq> None"
      using that by (rule handler_at_inserted_present)
  qed
  have c: "only_handler_differs_at (split_path P)
        (root (routetrie (registered (Router hroot d) regs)))
        (root (routetrie (add_handler (registered (Router hroot d) regs) P hnew)))"
    if "P \<in> fst ` set regs"
    unfolding root_add_handler
  proof (rule insert_only_handler_differs)
    show "distinct_keys (root (routetrie (registered (Router hroot d) regs)))"
      by (rule distinct_keys_registered)
    show "handler_at (root (routetrie (registered (Router hroot d) regs))) (split_path P) \<noteq> None"
      using that by (intro handler_at_registered_present latest_registered)
  qed
  have e: "latest (before @ (P, hnew) # after) (split_path P) = Some hnew"
    if "P \<notin> fst ` set after"
    using that by (rule latest_last_registration)
  show ?thesis
    using a b c e
    by (simp add: root_inserted_snoc handler_at_insert_from_same trie_find_find_from
        find_from_insert_from_same find_from_latest lookup_latest)
qed

theorem reinsert_overwrites_terminal_handler_witness:
  "distinct_keys (root (inserted (RouteTrie (PyStr ''root handler'') (PyStr ''not found handler''))
      [([[], ''home'', ''about''], PyStr ''about handler''),
       ([[], ''home'', ''contact''], PyStr ''contact handler'')])) \<and>
   handler_at (root (inserted (RouteTrie (PyStr ''root handler'') (PyStr ''not found handler''))
      [([[], ''home'', ''about''], PyStr ''about handler''),
       ([[], ''home'', ''contact''], PyStr ''contact handler'')])) [[], ''home'', ''about''] \<noteq> None \<and>
   list_ex (\<lambda>op. fst op = [[], ''home'', ''about''])
      [([[], ''home'', ''about''], PyStr ''about handler''),
       ([[], ''home'', ''contact''], PyStr ''contact handler'')] \<and>
   only_handler_differs_at [[], ''home'', ''about'']
     (root (inserted (RouteTrie (PyStr ''root handler'') (PyStr ''not found handler''))
        [([[], ''home'', ''about''], PyStr ''about handler''),
         ([[], ''home'', ''contact''], PyStr ''contact handler'')]))
     (root (trie_insert
        (inserted (RouteTrie (PyStr ''root handler'') (PyStr ''not found handler''))
           [([[], ''home'', ''about''], PyStr ''about handler''),
            ([[], ''home'', ''contact''], PyStr ''contact handler'')])
        [[], ''home'', ''about''] (PyStr ''new about handler''))) \<and>
   ''/home/about'' \<in> fst ` set [(''/home/about'', PyStr ''about handler''),
      (''/home/contact'', PyStr ''contact handler'')] \<and>
   only_handler_differs_at (split_path ''/home/about'')
     (root (routetrie (registered (Router (PyStr ''root handler'') (PyStr ''not found handler''))
        [(''/home/about'', PyStr ''about handler''),
         (''/home/contact'', PyStr ''contact handler'')])))
     (root (routetrie (add_handler
        (registered (Router (PyStr ''root handler'') (PyStr ''not found handler''))
           [(''/home/about'', PyStr ''about handler''),
            (''/home/contact'', PyStr ''contact handler'')])
        ''/home/about'' (PyStr ''new about handler'')))) \<and>
   ''/home/about'' \<notin> fst ` set [(''/home/contact'', PyStr ''contact handler'')] \<and>
   ''/home/about'' \<noteq> [] \<and> \<not> root_case (split_path ''/home/about'') \<and>
   truthy (PyStr ''new about handler'') \<and>
   lookup (registered (Router (PyStr ''root handler'') (PyStr ''not found handler''))
             ([(''/home/about'', PyStr ''about handler'')] @
              (''/home/about'', PyStr ''new about handler'') #
              [(''/home/contact'', PyStr ''contact handler'')])) ''/home/about'' =
     Inr (PyStr ''new about handler'')"
proof -
  let ?ops = "[([[], ''home'', ''about''], PyStr ''about handler''),
       ([[], ''home'', ''contact''], PyStr ''contact handler'')]"
  let ?T = "inserted (RouteTrie (PyStr ''root handler'') (PyStr ''not found handler'')) ?ops"
  let ?regs = "[(''/home/about'', PyStr ''about handler''),
      (''/home/contact'', PyStr ''contact handler'')]"
  have root_T: "root ?T =
     RouteTrieNode (PyStr ''root handler'') (PyStr ''not found handler'')
       [([], RouteTrieNode (PyStr ''not found handler'') (PyStr ''not found handler'')
          [(''home'', RouteTrieNode (PyStr ''not found handler'') (PyStr ''not found handler'')
             [(''about'', RouteTrieNode (PyStr ''about handler'') (PyStr ''not found handler'') []),
              (''contact'', RouteTrieNode (PyStr ''contact handler'') (PyStr ''not found handler'')
                [])])])]"
    by (simp add: inserted_def trie_insert_def RouteTrie_def node_insert_def)
  have h1: "distinct_keys (root ?T)" by (simp add: root_T)
  have h2: "handler_at (root ?T) [[], ''home'', ''about''] \<noteq> None" by (simp add: root_T)
  have h3: "list_ex (\<lambda>op. fst op = [[], ''home'', ''about'']) ?ops" by simp
  have h4: "''/home/about'' \<in> fst ` set ?regs" by simp
  have h5: "''/home/about'' \<notin> fst ` set [(''/home/contact'', PyStr ''contact handler'')]" by simp
  have h6: "''/home/about'' \<noteq> []" by simp
  have h7: "\<not> root_case (split_path ''/home/about'')" by (simp add: split_path_examples)
  have h8: "truthy (PyStr ''new about handler'')" by simp
  show ?thesis
    using h1 h2 h3 h4 h5 h6 h7 h8
      reinsert_overwrites_terminal_handler [of ?T "[[], ''home'', ''about'']"
        "PyStr ''new about handler''" ?ops "PyStr ''root handler''" "PyStr ''not found handler''"
        "''/home/about''" ?regs "[(''/home/contact'', PyStr ''contact handler'')]"
        "[(''/home/about'', PyStr ''about handler'')]"]
    by blast
qed

text \<open>
  The claim as stated fails for \<^verbatim>\<open>Router.lookup\<close>: after \<^verbatim>\<open>/\<close> is registered twice,
  \<^verbatim>\<open>lookup("/")\<close> returns the root handler, not the latest registered handler; and a latest
  handler that counts as false is replaced by the not-found handler.
\<close>

theorem reinsert_lookup_counterexample:
  "lookup (add_handler (add_handler (Router (PyStr ''root handler'') (PyStr ''not found handler''))
             ''/'' (PyStr ''first'')) ''/'' (PyStr ''second'')) ''/'' =
     Inr (PyStr ''root handler'') \<and>
   lookup (add_handler (add_handler (Router (PyStr ''root handler'') (PyStr ''not found handler''))
             ''/'' (PyStr ''first'')) ''/'' (PyStr ''second'')) ''/'' \<noteq>
     Inr (PyStr ''second'') \<and>
   lookup (add_handler (add_handler (Router (PyStr ''root handler'') (PyStr ''not found handler''))
             ''/a'' (PyStr ''first'')) ''/a'' (PyStr '''')) ''/a'' =
     Inr (PyStr ''not found handler'') \<and>
   lookup (add_handler (add_handler (Router (PyStr ''root handler'') (PyStr ''not found handler''))
             ''/a'' (PyStr ''first'')) ''/a'' (PyStr '''')) ''/a'' \<noteq>
     Inr (PyStr '''')"
  by (simp add: lookup_cases split_path_examples root_add_handler node_insert_def)

subsection \<open>C8: one default handler in the whole trie\<close>

text \<open>
  C8. In the trie built by \<^verbatim>\<open>RouteTrie(h0, d)\<close> and any sequence of insertions (of any
  segment lists, the empty one included), every node has the default handler \<open>d\<close>; and
  so has every node of the trie of a router built by \<^verbatim>\<open>Router(h0, d)\<close> after any sequence of
  calls of \<^verbatim>\<open>add_handler\<close> and \<^verbatim>\<open>lookup\<close>. A node that \<^verbatim>\<open>RouteTrieNode.insert\<close> creates gets the
  default handler of the node that creates it.
\<close>

theorem default_handler_same_on_every_node:
  "all_default d (root (inserted (RouteTrie h0 d) ops)) \<and>
   all_default d (root (routetrie (run (Router h0 d) calls))) \<and>
   (map_of (children self) w = None \<longrightarrow>
      map_of (children (node_insert self w h)) w =
        Some (RouteTrieNode h (default_handler self) []))"
proof -
  have "all_default d (root (RouteTrie h0 d))" by (simp add: RouteTrie_def)
  then have "all_default d (root (inserted (RouteTrie h0 d) ops))"
    by (rule all_default_inserted)
  moreover have "all_default d (root (routetrie (run (Router h0 d) calls)))"
    by (rule all_default_run) simp
  ultimately show ?thesis
    by (simp add: node_insert_def map_add_def)
qed

theorem default_handler_same_on_every_node_witness:
  "all_default (PyStr ''not found handler'') (root (routetrie test_router)) \<and>
   map_of (children (RouteTrieNode (PyStr ''root handler'') (PyStr ''not found handler'') []))
     ''home'' = None \<and>
   map_of (children (node_insert
       (RouteTrieNode (PyStr ''root handler'') (PyStr ''not found handler'') [])
       ''home'' (PyStr ''not found handler''))) ''home'' =
     Some (RouteTrieNode (PyStr ''not found handler'') (PyStr ''not found handler'') [])"
  using default_handler_same_on_every_node
    [of "PyStr ''not found handler''" "PyStr ''root handler''" "[]"
      "[AddHandler ''/home/about'' (PyStr ''about handler'')]"
      "RouteTrieNode (PyStr ''root handler'') (PyStr ''not found handler'') []"
      "''home''" "PyStr ''not found handler''"]
  by (simp add: run_def test_router_def)

subsection \<open>C9: lookup leaves the router as it is\<close>

text \<open>
  C9. \<^verbatim>\<open>Router.lookup\<close>, read as a method on the router state, returns the state it was
  called on, and so does \<^verbatim>\<open>RouteTrie.find\<close> on the trie; a second call with the same path
  returns the same result (the same value, or the same exception) and again the same
  state. As a step of the router: a \<^verbatim>\<open>lookup\<close> call leaves the router as it was, repeating it
  has the same outcome, and any number of \<^verbatim>\<open>lookup\<close> calls in a row leaves the router as it
  was.
\<close>

theorem lookup_leaves_router_unchanged:
  "snd (lookup_st path r) = r \<and>
   snd (find_st pl t) = t \<and>
   lookup_st path (snd (lookup_st path r)) = lookup_st path r \<and>
   fst (step r (Lookup path)) = r \<and>
   snd (step (fst (step r (Lookup path))) (Lookup path)) = snd (step r (Lookup path)) \<and>
   run r (map Lookup paths) = r"
  by (simp only: lookup_st_eq find_st_state step_Lookup_state run_lookups snd_conv simp_thms)

subsection \<open>C10: two leading empty segments\<close>

text \<open>
  C10. When the segment list of a path has at least two elements and the first two are
  the empty string, \<^verbatim>\<open>lookup\<close> returns the handler of the root node, whatever the trie
  holds and whether or not that handler counts as true; after any registrations on
  \<^verbatim>\<open>Router(h0, d)\<close> that handler is \<open>h0\<close>.
\<close>

theorem lookup_two_leading_empty_segments:
  assumes "2 \<le> length (split_path path)"
    and "split_path path ! 0 = []" and "split_path path ! 1 = []"
  shows "lookup r path = Inr (handler (root (routetrie r))) \<and>
         lookup (registered (Router h0 d) regs) path = Inr h0"
proof -
  have "root_case (split_path path)"
    using assms by (simp add: root_case_nth)
  then show ?thesis
    by (simp add: lookup_root_case handler_root_registered_Router)
qed

theorem lookup_two_leading_empty_segments_witness:
  "2 \<le> length (split_path ''//foo/bar'') \<and>
   split_path ''//foo/bar'' ! 0 = [] \<and> split_path ''//foo/bar'' ! 1 = [] \<and>
   lookup (registered (Router PyNone (PyStr ''not found handler''))
             [(''//foo/bar'', PyStr ''bar handler'')]) ''//foo/bar'' = Inr PyNone"
proof -
  have h1: "2 \<le> length (split_path ''//foo/bar'')" by (simp add: split_path_examples)
  have h2: "split_path ''//foo/bar'' ! 0 = []" by (simp add: split_path_examples)
  have h3: "split_path ''//foo/bar'' ! 1 = []" by (simp add: split_path_examples)
  show ?thesis
    using h1 h2 h3
      lookup_two_leading_empty_segments [OF h1 h2 h3,
        of "Router PyNone (PyStr ''not found handler'')" PyNone "PyStr ''not found handler''"
          "[(''//foo/bar'', PyStr ''bar handler'')]"]
    by simp
qed

end
